theory Spec2Isabelle
  imports Main
begin

section \<open>Data model of main.go\<close>

text \<open>
  The three JSON structs of the search result (lines 20-34). The Go map
  \<^verbatim>\<open>map[string]FlickrResultPhotoSize\<close> is a partial function from labels.
\<close>

type_synonym bytes = "char list"

record FlickrResultPhotoSize =
  Label :: string
  Filename :: string
  Url :: string

record FlickrResultPhoto =
  Name :: string
  Description :: string
  Sizes :: "string \<Rightarrow> FlickrResultPhotoSize option"

record FlickrResult =
  Photos :: "FlickrResultPhoto list"

text \<open>
  The package-level flag variables (lines 41-46) and the joined positional
  arguments. Go's \<^verbatim>\<open>int\<close> is modelled by \<^typ>\<open>int\<close>, taken 64 bits wide.
  The arithmetic on these values is \<^verbatim>\<open>retries++\<close> and \<^verbatim>\<open>2*(retries+1)\<close>
  (with \<^verbatim>\<open>retries\<close> from 0 to 5), \<^verbatim>\<open>100*concurrency\<close>, whose wrap-around
  is written out in \<open>capacity\<close> below, and \<^verbatim>\<open>page++\<close>, which stays in
  range unless \<^verbatim>\<open>max_pages\<close> is the largest \<^verbatim>\<open>int\<close>.
\<close>

record config =
  targetDirectory :: string
  sizeWanted :: string
  maxPages :: int
  concurrency :: int
  searchClause :: string

section \<open>The outside world\<close>

text \<open>
  What the program observes of the network and the file system is not decided
  by the program. It is a parameter of the model: every call is answered by a
  function of the moment of the call (the number of events recorded so far)
  and of the call's argument, so an answer may differ from one attempt to the
  next.
\<close>

record page_response =
  ContentType :: string
  Body :: "bytes option"

record get_response =
  ContentLength :: int
  RespBody :: bytes
  CopyStops :: "nat option"

text \<open>
  \<open>Body = None\<close>: \<^verbatim>\<open>ioutil.ReadAll(res.Body)\<close> returns an error.
  \<open>CopyStops = Some n\<close>: \<^verbatim>\<open>io.Copy\<close> meets a read or write error after \<open>n\<close>
  bytes; \<open>None\<close>: it runs to the end of the body.
\<close>

text \<open>
  What \<^verbatim>\<open>make(chan FlickrResultPhotoSize, n)\<close> does for a capacity
  \<open>n\<close> that is not negative: the channel is made, or the runtime refuses
  the size with a panic, or it runs out of memory.
\<close>

datatype make_result = Made | Size_out_of_range | Out_of_memory

text \<open>
  \<open>file_at\<close> gives the file a path names, by a name of the file's own:
  two paths that reach the same file (\<^verbatim>\<open>a.jpg\<close> and \<^verbatim>\<open>./a.jpg\<close>, a link
  and its target) have the same value.
\<close>

record world =
  QueryEscape :: "string \<Rightarrow> string"
  NewRequest :: "string \<Rightarrow> bool"
  client_Do :: "nat \<Rightarrow> string \<Rightarrow> page_response option"
  json_Unmarshal :: "bytes \<Rightarrow> FlickrResult option"
  http_Get :: "nat \<Rightarrow> string \<Rightarrow> get_response option"
  os_Create :: "nat \<Rightarrow> string \<Rightarrow> bool"
  file_at :: "string \<Rightarrow> string"
  make_chan :: "int \<Rightarrow> make_result"

text \<open>
  The observable events of a run, in order: the log lines of the source (one
  constructor per \<^verbatim>\<open>log.Printf\<close>/\<^verbatim>\<open>log.Fatalf\<close> call site, with its
  arguments) and the calls to the outside world.
\<close>

datatype event =
    Log_grabbing string
  | Log_finished
  | Log_caught_signal
  | Log_starting_goroutines
  | Log_start_uris
  | Log_waiting
  | Log_stopping_spider
  | Fatal_creating_request
  | Fatal_getting_response
  | Log_not_json
  | Fatal_reading_body
  | Log_cant_parse
  | Log_parse_error
  | Log_pushed string
  | Log_fetching string int int
  | Log_hard_error int
  | Log_stopping_grabber
  | Ev_Do string
  | Ev_Offer int FlickrResultPhotoSize
  | Ev_Get string
  | Ev_Sleep int
  | Ev_Create string

section \<open>Shared state of the goroutines\<close>

text \<open>
  The variables of \<^verbatim>\<open>main\<close> that the goroutines share (lines 70-74):
  \<^verbatim>\<open>finishing\<close>, the channel \<^verbatim>\<open>stop\<close> (only ever closed, so one bit), the
  channel \<^verbatim>\<open>signals\<close> (capacity 1, so the number of buffered signals and
  whether \<^verbatim>\<open>signal.Notify\<close> is still in force), the buffered channel
  \<^verbatim>\<open>grab_pictures\<close>; with them the contents of the files (by the files'
  own names, see \<open>file_at\<close>) and the events so far.
\<close>

record shared =
  finishing :: bool
  stop_closed :: bool
  signals :: nat
  notify :: bool
  queue :: "FlickrResultPhotoSize list"
  fs :: "string \<Rightarrow> bytes option"
  trace :: "event list"

definition emit :: "event list \<Rightarrow> shared \<Rightarrow> shared" where
  "emit evs sh = sh\<lparr>trace := trace sh @ evs\<rparr>"

definition now :: "shared \<Rightarrow> nat" where
  "now sh = length (trace sh)"

subsection \<open>Go primitives\<close>

text \<open>
  A \<^verbatim>\<open>select\<close> statement: among the cases that can proceed one is chosen
  (by the runtime, uniformly at random: here by the number \<open>pick\<close>); the
  \<^verbatim>\<open>default\<close> case (\<open>None\<close>) runs only when no case can proceed.
\<close>

definition go_select :: "'c list \<Rightarrow> nat \<Rightarrow> 'c option" where
  "go_select ready pick =
     (if ready = [] then None else Some (ready ! (pick mod length ready)))"

text \<open>\<^verbatim>\<open>close(stop)\<close>: closing a closed channel panics.\<close>

definition close_stop :: "shared \<Rightarrow> string + shared" where
  "close_stop sh =
     (if stop_closed sh then Inl ''close of closed channel''
      else Inr (sh\<lparr>stop_closed := True\<rparr>))"

text \<open>The value of a 64-bit signed integer computation: the result wraps.\<close>

definition int64 :: "int \<Rightarrow> int" where
  "int64 x = (x + 2 ^ 63) mod 2 ^ 64 - 2 ^ 63"

text \<open>The capacity asked for \<^verbatim>\<open>grab_pictures\<close> (line 74).\<close>

definition capacity :: "config \<Rightarrow> int" where
  "capacity c = int64 (100 * concurrency c)"

section \<open>grabPictures (lines 195-228)\<close>

text \<open>The path of line 208: \<^verbatim>\<open>fmt.Sprintf("%s/%s", targetDirectory, sized.Filename)\<close>.\<close>

definition dest_path :: "config \<Rightarrow> FlickrResultPhotoSize \<Rightarrow> string" where
  "dest_path c sized = targetDirectory c @ ''/'' @ Filename sized"

text \<open>
  \<^verbatim>\<open>os.Create\<close> has truncated the file the path names;
  \<^verbatim>\<open>io.Copy(fo, res.Body)\<close> then writes the body to it up to the first error,
  which the source ignores.
\<close>

definition io_Copy :: "world \<Rightarrow> string \<Rightarrow> get_response \<Rightarrow> shared \<Rightarrow> shared" where
  "io_Copy w p res sh =
     sh\<lparr>fs := (fs sh)(file_at w p \<mapsto> (case CopyStops res of
                                         None \<Rightarrow> RespBody res
                                       | Some n \<Rightarrow> take n (RespBody res)))\<rparr>"

text \<open>
  The retry loop of lines 204-219, from the value \<open>retries\<close> on. The result
  is \<open>True\<close> when the loop was left by \<^verbatim>\<open>break nextPicture\<close>, with the value
  of \<^verbatim>\<open>retries\<close> at the exit.
\<close>

function retry_loop ::
  "world \<Rightarrow> config \<Rightarrow> FlickrResultPhotoSize \<Rightarrow> int \<Rightarrow> shared \<Rightarrow> bool \<times> int \<times> shared" where
  "retry_loop w c sized retries sh =
     (if retries < 5 then
        (case http_Get w (now sh) (Url sized) of
           Some res \<Rightarrow>
             (let sh1 = emit [Ev_Get (Url sized),
                              Log_fetching (Filename sized) (ContentLength res) retries] sh
              in if os_Create w (now sh1) (dest_path c sized) then
                   (True, retries,
                    io_Copy w (dest_path c sized) res
                      (emit [Ev_Create (dest_path c sized)] sh1))
                 else
                   retry_loop w c sized (retries + 1)
                     (emit [Ev_Create (dest_path c sized)] sh1))
         | None \<Rightarrow>
             retry_loop w c sized (retries + 1)
               (emit [Ev_Get (Url sized), Ev_Sleep (2 * (retries + 1))] sh))
      else (False, retries, sh))"
  by pat_completeness auto
termination
  by (relation "measure (\<lambda>(w, c, sized, retries, sh). nat (5 - retries))") auto

declare retry_loop.simps [simp del]

text \<open>
  The body of \<^verbatim>\<open>case sized := <-queue\<close> (lines 202-221): the retry loop,
  then the hard-error line unless the loop was left by \<^verbatim>\<open>break nextPicture\<close>.
\<close>

definition fetch_picture :: "world \<Rightarrow> config \<Rightarrow> FlickrResultPhotoSize \<Rightarrow> shared \<Rightarrow> shared" where
  "fetch_picture w c sized sh =
     (case retry_loop w c sized 0 sh of
        (True, retries, sh') \<Rightarrow> sh'
      | (False, retries, sh') \<Rightarrow> emit [Log_hard_error retries] sh')"

datatype worker_case = Recv_queue | Recv_stop

definition worker_ready :: "shared \<Rightarrow> worker_case list" where
  "worker_ready sh =
     (if queue sh \<noteq> [] then [Recv_queue] else []) @
     (if stop_closed sh then [Recv_stop] else [])"

text \<open>
  One turn of the worker's \<^verbatim>\<open>for { select ... }\<close> (lines 198-227). The
  result is \<open>True\<close> when the goroutine returned (and, by the deferred
  \<^verbatim>\<open>wg.Done()\<close>, left the wait group), \<open>False\<close> when it goes round again.
\<close>

definition grabPictures_iter :: "world \<Rightarrow> config \<Rightarrow> nat \<Rightarrow> shared \<Rightarrow> bool \<times> shared" where
  "grabPictures_iter w c pick sh =
     (case go_select (worker_ready sh) pick of
        Some Recv_queue \<Rightarrow>
          (case queue sh of
             [] \<Rightarrow> (False, sh)
           | sized # rest \<Rightarrow> (False, fetch_picture w c sized (sh\<lparr>queue := rest\<rparr>)))
      | Some Recv_stop \<Rightarrow> (True, emit [Log_stopping_grabber] sh)
      | None \<Rightarrow> (False, sh))"

section \<open>fetchFlickrData (lines 120-193)\<close>

text \<open>\<^verbatim>\<open>%d\<close> of \<^verbatim>\<open>fmt.Sprintf\<close>: the decimal digits of an integer.\<close>

fun show_nat :: "nat \<Rightarrow> string" where
  "show_nat n =
     (if n < 10 then [''0123456789'' ! n]
      else show_nat (n div 10) @ [''0123456789'' ! (n mod 10)])"

declare show_nat.simps [simp del]

definition Sprintf_d :: "int \<Rightarrow> string" where
  "Sprintf_d i = (if i < 0 then ''-'' @ show_nat (nat (- i)) else show_nat (nat i))"

text \<open>\<^verbatim>\<open>fmt.Sprintf(flickrSearchUrl, query, page)\<close> with the constant of line 38.\<close>

definition search_url :: "world \<Rightarrow> config \<Rightarrow> int \<Rightarrow> string" where
  "search_url w c page =
     ''http://www.flickr.com/search?data=1&mt=photos&cm=&m=&l=&w=&hd=&d=&append=0&s=&q=''
       @ QueryEscape w (searchClause c) @ ''&page='' @ Sprintf_d page"

text \<open>
  Where the crawler stands between two \<^verbatim>\<open>select\<close> statements: at the head
  of the page loop (line 138) with the page number, or inside
  \<^verbatim>\<open>for _, photo := range result.Photos\<close> (line 179) with the photos still to
  visit. A turn ends with the crawler standing at the next place, with the
  function having returned, or with \<^verbatim>\<open>log.Fatalf\<close>.
\<close>

datatype crawler_pc = Page_loop int | Photo_loop int "FlickrResultPhoto list"

datatype crawler_result = Continue crawler_pc | Returned | Fatal

datatype crawler_case = Stop_recv | Queue_send

definition page_ready :: "shared \<Rightarrow> crawler_case list" where
  "page_ready sh = (if stop_closed sh then [Stop_recv] else [])"

definition offer_ready :: "config \<Rightarrow> shared \<Rightarrow> crawler_case list" where
  "offer_ready c sh =
     (if stop_closed sh then [Stop_recv] else []) @
     (if int (length (queue sh)) < capacity c then [Queue_send] else [])"

text \<open>
  Lines 146-177: request, response, content type, body, decoding. A decoding
  error leaves the page loop by \<^verbatim>\<open>break\<close>, after which the function ends.
\<close>

definition fetch_page :: "world \<Rightarrow> config \<Rightarrow> int \<Rightarrow> shared \<Rightarrow> crawler_result \<times> shared" where
  "fetch_page w c page sh =
     (let u = search_url w c page in
      if \<not> NewRequest w u then (Fatal, emit [Fatal_creating_request] sh)
      else
        (case client_Do w (now sh) u of
           None \<Rightarrow> (Fatal, emit [Ev_Do u, Fatal_getting_response] sh)
         | Some res \<Rightarrow>
             if ContentType res \<noteq> ''application/json'' then
               (Returned, emit [Ev_Do u, Log_not_json] sh)
             else
               (case Body res of
                  None \<Rightarrow> (Fatal, emit [Ev_Do u, Fatal_reading_body] sh)
                | Some body \<Rightarrow>
                    (case json_Unmarshal w body of
                       None \<Rightarrow> (Returned, emit [Ev_Do u, Log_cant_parse, Log_parse_error] sh)
                     | Some result \<Rightarrow>
                         (Continue (Photo_loop page (Photos result)), emit [Ev_Do u] sh)))))"

text \<open>
  The \<^verbatim>\<open>select\<close> of lines 182-189. The event \<open>Ev_Offer\<close> marks that the
  statement was reached with this descriptor. The result is \<open>True\<close> when the
  function returns.
\<close>

definition offer :: "config \<Rightarrow> int \<Rightarrow> FlickrResultPhotoSize \<Rightarrow> nat \<Rightarrow> shared \<Rightarrow> bool \<times> shared" where
  "offer c page sized pick sh =
     (let sh1 = emit [Ev_Offer page sized] sh in
      case go_select (offer_ready c sh) pick of
        Some Stop_recv \<Rightarrow> (True, emit [Log_stopping_spider] sh1)
      | Some Queue_send \<Rightarrow>
          (False, emit [Log_pushed (Filename sized)] (sh1\<lparr>queue := queue sh1 @ [sized]\<rparr>))
      | None \<Rightarrow> (False, sh1))"

fun fetchFlickrData_step ::
  "world \<Rightarrow> config \<Rightarrow> nat \<Rightarrow> crawler_pc \<Rightarrow> shared \<Rightarrow> crawler_result \<times> shared" where
  "fetchFlickrData_step w c pick (Page_loop page) sh =
     (if page \<le> maxPages c then
        (case go_select (page_ready sh) pick of
           Some x \<Rightarrow> (Returned, emit [Log_stopping_spider] sh)
         | None \<Rightarrow> fetch_page w c page sh)
      else (Returned, sh))"
| "fetchFlickrData_step w c pick (Photo_loop page []) sh =
     (Continue (Page_loop (page + 1)), sh)"
| "fetchFlickrData_step w c pick (Photo_loop page (photo # rest)) sh =
     (case Sizes photo (sizeWanted c) of
        None \<Rightarrow> (Continue (Photo_loop page rest), sh)
      | Some sized \<Rightarrow>
          (case offer c page sized pick sh of
             (True, sh') \<Rightarrow> (Returned, sh')
           | (False, sh') \<Rightarrow> (Continue (Photo_loop page rest), sh')))"

section \<open>main (lines 62-118)\<close>

text \<open>
  One turn of the signal goroutine's loop (lines 78-94): with a signal
  buffered it logs, sets \<^verbatim>\<open>finishing\<close>, closes \<^verbatim>\<open>stop\<close> (a panic
  leaves the state as it is then), cancels the notification and returns
  (\<open>True\<close>); otherwise it sleeps and goes round.
\<close>

definition signal_goroutine_iter :: "shared \<Rightarrow> string \<times> shared + bool \<times> shared" where
  "signal_goroutine_iter sh =
     (if 0 < signals sh then
        (let sh1 = (emit [Log_caught_signal] sh)\<lparr>signals := signals sh - 1, finishing := True\<rparr>
         in case close_stop sh1 of
              Inl p \<Rightarrow> Inl (p, sh1)
            | Inr sh2 \<Rightarrow> Inr (True, sh2\<lparr>notify := False\<rparr>))
      else Inr (False, sh))"

text \<open>
  The process: \<open>Exited n\<close> after \<^verbatim>\<open>os.Exit(n)\<close> or the return of
  \<^verbatim>\<open>main\<close> (\<open>n = 0\<close>); \<open>Panicked\<close> after a panic in any goroutine;
  \<open>Killed\<close> by a signal that is not relayed.
\<close>

datatype status = Running | Exited int | Panicked string | Killed

datatype main_pc = M_crawl crawler_pc | M_drain | M_len | M_wait

record sys =
  status :: status
  main_pc :: main_pc
  sig_running :: bool
  workers :: "bool list"
  mem :: shared

text \<open>
  Lines 62-103, up to the call of \<^verbatim>\<open>fetchFlickrData\<close>: the channels are
  made, the signal goroutine and \<^verbatim>\<open>concurrency\<close> workers are started.
  \<open>files\<close> is the file system found. When \<^verbatim>\<open>make\<close> panics, for a
  negative capacity or one the runtime refuses, the deferred line of line 68
  is printed before the process dies; when memory runs out the runtime ends
  the process at once, with exit code 2.
\<close>

definition main_start :: "world \<Rightarrow> config \<Rightarrow> (string \<Rightarrow> bytes option) \<Rightarrow> sys" where
  "main_start w c files =
     (let sh = \<lparr>finishing = False, stop_closed = False, signals = 0, notify = False,
                queue = [], fs = files, trace = [Log_grabbing (searchClause c)]\<rparr>;
          panic = \<lparr>status = Panicked ''makechan: size out of range'', main_pc = M_wait,
                   sig_running = False, workers = [], mem = emit [Log_finished] sh\<rparr>
      in if capacity c < 0 then panic
         else
           (case make_chan w (capacity c) of
              Size_out_of_range \<Rightarrow> panic
            | Out_of_memory \<Rightarrow>
                \<lparr>status = Exited 2, main_pc = M_wait, sig_running = False, workers = [],
                 mem = sh\<rparr>
            | Made \<Rightarrow>
                \<lparr>status = Running, main_pc = M_crawl (Page_loop 1), sig_running = True,
                 workers = replicate (nat (concurrency c)) True,
                 mem = emit [Log_starting_goroutines, Log_start_uris] (sh\<lparr>notify := True\<rparr>)\<rparr>))"

text \<open>
  One turn of the main goroutine: a turn of the crawler (\<^verbatim>\<open>log.Fatalf\<close> is
  \<^verbatim>\<open>os.Exit(1)\<close> after the line is printed); in the loop of lines
  105-113, the test of \<^verbatim>\<open>finishing\<close> (\<open>M_drain\<close>) or, after it, the
  test of the queue's length with the \<^verbatim>\<open>close(stop)\<close> or the sleep that
  follows (\<open>M_len\<close>); or \<^verbatim>\<open>wg.Wait()\<close> (\<open>M_wait\<close>), which lets
  \<^verbatim>\<open>main\<close> return, after the deferred line of line 68, once every worker
  has returned. A panic of \<^verbatim>\<open>close(stop)\<close> in this goroutine runs the
  deferred line as well before the process dies.
\<close>

definition main_step :: "world \<Rightarrow> config \<Rightarrow> nat \<Rightarrow> sys \<Rightarrow> sys" where
  "main_step w c pick s =
     (case main_pc s of
        M_crawl pc \<Rightarrow>
          (case fetchFlickrData_step w c pick pc (mem s) of
             (Continue pc', sh') \<Rightarrow> s\<lparr>main_pc := M_crawl pc', mem := sh'\<rparr>
           | (Returned, sh') \<Rightarrow> s\<lparr>main_pc := M_drain, mem := sh'\<rparr>
           | (Fatal, sh') \<Rightarrow> s\<lparr>status := Exited 1, mem := sh'\<rparr>)
      | M_drain \<Rightarrow>
          (if \<not> finishing (mem s) then s\<lparr>main_pc := M_len\<rparr>
           else s\<lparr>main_pc := M_wait, mem := emit [Log_waiting] (mem s)\<rparr>)
      | M_len \<Rightarrow>
          (if length (queue (mem s)) = 0 then
             (case close_stop (mem s) of
                Inl p \<Rightarrow> s\<lparr>status := Panicked p, mem := emit [Log_finished] (mem s)\<rparr>
              | Inr sh' \<Rightarrow> s\<lparr>main_pc := M_wait, mem := emit [Log_waiting] sh'\<rparr>)
           else s\<lparr>main_pc := M_drain\<rparr>)
      | M_wait \<Rightarrow>
          (if list_all (\<lambda>running. \<not> running) (workers s) then
             s\<lparr>status := Exited 0, mem := emit [Log_finished] (mem s)\<rparr>
           else s))"

text \<open>
  The goroutines run interleaved. A turn is the code a goroutine runs from one
  look at the shared variables to the next: the turns above. Within a turn a
  goroutine works on the network and the files only, so the turns of the
  others may be taken to come before or after it. The scheduler's choices are
  a turn of the main goroutine, of worker \<open>i\<close> (each with the pick of its
  \<^verbatim>\<open>select\<close>), of the signal goroutine, or the arrival of an interrupt
  from the operating system. An interrupt is buffered in \<^verbatim>\<open>signals\<close> while
  the notification is in force and there is room; after \<^verbatim>\<open>signal.Stop\<close> it
  ends the process. Nothing moves once the process has ended.
\<close>

datatype action = Main nat | Worker nat nat | Sig | OS_interrupt

definition step :: "world \<Rightarrow> config \<Rightarrow> action \<Rightarrow> sys \<Rightarrow> sys" where
  "step w c a s =
     (if status s \<noteq> Running then s
      else
        (case a of
           Main pick \<Rightarrow> main_step w c pick s
         | Worker i pick \<Rightarrow>
             (if i < length (workers s) \<and> workers s ! i then
                (case grabPictures_iter w c pick (mem s) of
                   (returned, sh') \<Rightarrow> s\<lparr>workers := (workers s)[i := \<not> returned], mem := sh'\<rparr>)
              else s)
         | Sig \<Rightarrow>
             (if sig_running s then
                (case signal_goroutine_iter (mem s) of
                   Inl (p, sh') \<Rightarrow> s\<lparr>status := Panicked p, mem := sh'\<rparr>
                 | Inr (returned, sh') \<Rightarrow> s\<lparr>sig_running := \<not> returned, mem := sh'\<rparr>)
              else s)
         | OS_interrupt \<Rightarrow>
             (if notify (mem s) then
                (if signals (mem s) < 1 then s\<lparr>mem := (mem s)\<lparr>signals := 1\<rparr>\<rparr> else s)
              else s\<lparr>status := Killed\<rparr>)))"

fun run :: "world \<Rightarrow> config \<Rightarrow> action list \<Rightarrow> sys \<Rightarrow> sys" where
  "run w c [] s = s"
| "run w c (a # as) s = run w c as (step w c a s)"

section \<open>Concrete inputs\<close>

text \<open>
  A search for "cats" with the default size \<^verbatim>\<open>o\<close>, one page, two workers;
  the page lists three photos of which the first and the last have an
  original size; every download answers three bytes; every path names a
  file of its own, and the channel is made.
\<close>

definition pic_a :: FlickrResultPhotoSize where
  "pic_a = \<lparr>Label = ''Original'', Filename = ''a.jpg'', Url = ''http://farm.example/a_o.jpg''\<rparr>"

definition pic_b :: FlickrResultPhotoSize where
  "pic_b = \<lparr>Label = ''Original'', Filename = ''b.jpg'', Url = ''http://farm.example/b_o.jpg''\<rparr>"

definition thumb_c :: FlickrResultPhotoSize where
  "thumb_c = \<lparr>Label = ''Thumbnail'', Filename = ''c_t.jpg'', Url = ''http://farm.example/c_t.jpg''\<rparr>"

definition demo_page :: FlickrResult where
  "demo_page = \<lparr>Photos =
     [\<lparr>Name = ''a'', Description = [], Sizes = [''o'' \<mapsto> pic_a]\<rparr>,
      \<lparr>Name = ''c'', Description = [], Sizes = [''t'' \<mapsto> thumb_c]\<rparr>,
      \<lparr>Name = ''b'', Description = [], Sizes = [''o'' \<mapsto> pic_b]\<rparr>]\<rparr>"

definition demo_config :: config where
  "demo_config = \<lparr>targetDirectory = ''/tmp'', sizeWanted = ''o'', maxPages = 1,
                  concurrency = 2, searchClause = ''cats''\<rparr>"

definition demo_world :: world where
  "demo_world = \<lparr>QueryEscape = (\<lambda>q. q), NewRequest = (\<lambda>u. True),
     client_Do = (\<lambda>t u. Some \<lparr>ContentType = ''application/json'', Body = Some ''{}''\<rparr>),
     json_Unmarshal = (\<lambda>b. Some demo_page),
     http_Get = (\<lambda>t u. Some \<lparr>ContentLength = 3, RespBody = ''jpg'', CopyStops = None\<rparr>),
     os_Create = (\<lambda>t p. True), file_at = (\<lambda>p. p), make_chan = (\<lambda>n. Made)\<rparr>"

text \<open>The same world with every download failing at the transport level.\<close>

definition dead_world :: world where
  "dead_world = demo_world\<lparr>http_Get := (\<lambda>t u. None)\<rparr>"

text \<open>The same world with a target directory in which no file can be created.\<close>

definition nocreate_world :: world where
  "nocreate_world = demo_world\<lparr>os_Create := (\<lambda>t p. False)\<rparr>"

text \<open>The same world with the search endpoint out of reach.\<close>

definition unreachable_world :: world where
  "unreachable_world = demo_world\<lparr>client_Do := (\<lambda>t u. None)\<rparr>"

text \<open>The same world with the search endpoint answering an HTML page.\<close>

definition html_world :: world where
  "html_world = demo_world\<lparr>client_Do :=
     (\<lambda>t u. Some \<lparr>ContentType = ''text/html'', Body = Some ''<>''\<rparr>)\<rparr>"

text \<open>A worker's view with one descriptor queued and nothing else going on.\<close>

definition one_queued :: shared where
  "one_queued = \<lparr>finishing = False, stop_closed = False, signals = 0, notify = True,
                 queue = [pic_a], fs = Map.empty, trace = []\<rparr>"

text \<open>The process with one worker, the crawler done, and that descriptor queued.\<close>

definition one_worker :: sys where
  "one_worker = \<lparr>status = Running, main_pc = M_drain, sig_running = True,
                 workers = [True], mem = one_queued\<rparr>"

text \<open>The same world with the first download attempt failing and the later ones answering.\<close>

definition flaky_world :: world where
  "flaky_world = demo_world\<lparr>http_Get :=
     (\<lambda>t u. if t = 0 then None
            else Some \<lparr>ContentLength = 3, RespBody = ''jpg'', CopyStops = None\<rparr>)\<rparr>"

text \<open>The same world with a page body that does not decode.\<close>

definition garbled_world :: world where
  "garbled_world = demo_world\<lparr>json_Unmarshal := (\<lambda>b. None)\<rparr>"

text \<open>The same world with the copy of every body breaking off after two bytes.\<close>

definition cut_world :: world where
  "cut_world = demo_world\<lparr>http_Get :=
     (\<lambda>t u. Some \<lparr>ContentLength = 3, RespBody = ''jpg'', CopyStops = Some 2\<rparr>)\<rparr>"

text \<open>A descriptor whose file name, as the remote JSON gave it, climbs out of the directory.\<close>

definition escape_config :: config where
  "escape_config = demo_config\<lparr>targetDirectory := ''/tmp/out''\<rparr>"

definition escape_pic :: FlickrResultPhotoSize where
  "escape_pic = \<lparr>Label = ''Original'', Filename = ''../../etc/cron.d/job'',
                  Url = ''http://farm.example/x.jpg''\<rparr>"

text \<open>The same search over up to three pages.\<close>

definition three_pages :: config where
  "three_pages = demo_config\<lparr>maxPages := 3\<rparr>"

text \<open>
  The process with the first page decoded, its photos still to visit, and the
  queue filled to its capacity of 200.
\<close>

definition full_queue :: sys where
  "full_queue =
     \<lparr>status = Running, main_pc = M_crawl (Photo_loop 1 (Photos demo_page)),
      sig_running = True, workers = [True, True],
      mem = \<lparr>finishing = False, stop_closed = False, signals = 0, notify = True,
             queue = replicate 200 pic_b, fs = Map.empty, trace = []\<rparr>\<rparr>"

section \<open>Vocabulary of the properties\<close>

text \<open>The events a worker records while it handles one descriptor.\<close>

fun item_event :: "config \<Rightarrow> FlickrResultPhotoSize \<Rightarrow> event \<Rightarrow> bool" where
  "item_event c sized (Ev_Get u) = (u = Url sized)"
| "item_event c sized (Ev_Sleep d) = True"
| "item_event c sized (Log_fetching f n k) = (f = Filename sized)"
| "item_event c sized (Ev_Create p) = (p = dest_path c sized)"
| "item_event c sized ev = False"

text \<open>The paths handed to \<^verbatim>\<open>os.Create\<close>, and the number of answered downloads, in a trace.\<close>

fun created :: "event \<Rightarrow> string option" where
  "created (Ev_Create p) = Some p"
| "created ev = None"

definition created_paths :: "event list \<Rightarrow> string list" where
  "created_paths tr = List.map_filter created tr"

fun is_fetching :: "event \<Rightarrow> bool" where
  "is_fetching (Log_fetching f n k) = True"
| "is_fetching ev = False"

definition fetch_count :: "event list \<Rightarrow> nat" where
  "fetch_count tr = length (filter is_fetching tr)"



text \<open>The events of the crawler, and what they say of one page.\<close>

fun is_crawler_event :: "event \<Rightarrow> bool" where
  "is_crawler_event (Ev_Do u) = True"
| "is_crawler_event (Ev_Offer p d) = True"
| "is_crawler_event (Log_pushed f) = True"
| "is_crawler_event Log_stopping_spider = True"
| "is_crawler_event Log_not_json = True"
| "is_crawler_event Log_cant_parse = True"
| "is_crawler_event Log_parse_error = True"
| "is_crawler_event Fatal_creating_request = True"
| "is_crawler_event Fatal_getting_response = True"
| "is_crawler_event Fatal_reading_body = True"
| "is_crawler_event ev = False"

definition crawler_events :: "event list \<Rightarrow> event list" where
  "crawler_events tr = filter is_crawler_event tr"

fun offered :: "int \<Rightarrow> event \<Rightarrow> FlickrResultPhotoSize option" where
  "offered page (Ev_Offer p d) = (if p = page then Some d else None)"
| "offered page ev = None"

definition offers_of :: "int \<Rightarrow> event list \<Rightarrow> FlickrResultPhotoSize list" where
  "offers_of page tr = List.map_filter (offered page) tr"

text \<open>The descriptors of the photos that have the wanted size, in the order of the page.\<close>

definition wanted :: "config \<Rightarrow> FlickrResultPhoto list \<Rightarrow> FlickrResultPhotoSize list" where
  "wanted c photos = List.map_filter (\<lambda>photo. Sizes photo (sizeWanted c)) photos"

text \<open>The crawler has left the photos of page \<open>page\<close> behind.\<close>

fun past_page :: "int \<Rightarrow> main_pc \<Rightarrow> bool" where
  "past_page page (M_crawl (Page_loop q)) = (page < q)"
| "past_page page (M_crawl (Photo_loop q photos)) = (page < q)"
| "past_page page M_drain = True"
| "past_page page M_len = True"
| "past_page page M_wait = True"

text \<open>\<^verbatim>\<open>fetchFlickrData\<close> has returned.\<close>

fun crawl_over :: "main_pc \<Rightarrow> bool" where
  "crawl_over (M_crawl pc) = False"
| "crawl_over M_drain = True"
| "crawl_over M_len = True"
| "crawl_over M_wait = True"

text \<open>
  What holds of the offers of page \<open>page\<close> from the moment the crawler
  stands at its photos, with the events \<open>T\<close> recorded and the descriptors
  \<open>W\<close> still to offer: while the crawler is among the photos, the offers
  made and those to come make up \<open>W\<close>; once it has left them, either all
  of \<open>W\<close> was offered or the crawler logged that it stops and a part was.
\<close>

definition page_inv ::
  "config \<Rightarrow> int \<Rightarrow> event list \<Rightarrow> FlickrResultPhotoSize list \<Rightarrow> sys \<Rightarrow> bool" where
  "page_inv c page T W s =
     (\<exists>new. trace (mem s) = T @ new \<and>
        ((\<exists>ps. main_pc s = M_crawl (Photo_loop page ps) \<and>
               offers_of page new @ wanted c ps = W) \<or>
         (past_page page (main_pc s) \<and>
            (offers_of page new = W \<or>
             (Log_stopping_spider \<in> set new \<and> (\<exists>rest. offers_of page new @ rest = W))))))"

section \<open>Evaluation\<close>

lemmas demo_defs = pic_a_def pic_b_def thumb_c_def demo_page_def demo_config_def demo_world_def
  dead_world_def nocreate_world_def unreachable_world_def html_world_def one_queued_def
  one_worker_def flaky_world_def garbled_world_def
  escape_config_def escape_pic_def three_pages_def full_queue_def cut_world_def

lemmas exec_defs = step_def main_step_def main_start_def grabPictures_iter_def fetch_picture_def
  signal_goroutine_iter_def close_stop_def go_select_def worker_ready_def page_ready_def
  offer_ready_def offer_def fetch_page_def emit_def now_def capacity_def int64_def io_Copy_def
  dest_path_def search_url_def Sprintf_d_def retry_loop.simps show_nat.simps

section \<open>The worker\<close>

lemma fs_emit [simp]: "fs (emit evs sh) = fs sh"
  by (simp add: emit_def)

lemma trace_emit [simp]: "trace (emit evs sh) = trace sh @ evs"
  by (simp add: emit_def)

lemma created_paths_simps [simp]:
  "created_paths [] = []"
  "created_paths (ev # tr) =
     (case created ev of None \<Rightarrow> created_paths tr | Some p \<Rightarrow> p # created_paths tr)"
  "created_paths (tr @ tr') = created_paths tr @ created_paths tr'"
  by (simp_all add: created_paths_def List.map_filter_def split: option.splits)

lemma fetch_count_simps [simp]:
  "fetch_count [] = 0"
  "fetch_count (ev # tr) = (if is_fetching ev then Suc (fetch_count tr) else fetch_count tr)"
  "fetch_count (tr @ tr') = fetch_count tr + fetch_count tr'"
  by (simp_all add: fetch_count_def)

text \<open>
  What the retry loop records: events of this descriptor only, and one call
  of \<^verbatim>\<open>os.Create\<close>, with the destination path, for every answered download.
  Of the shared variables it changes the files alone.
\<close>

lemma retry_loop_events:
  "retry_loop w c sized r sh = (ok, r', sh') \<Longrightarrow>
     \<exists>new. sh' = sh\<lparr>fs := fs sh', trace := trace sh @ new\<rparr> \<and>
           list_all (item_event c sized) new \<and>
           created_paths new = replicate (fetch_count new) (dest_path c sized) \<and>
           (ok \<longrightarrow> 0 < fetch_count new)"
proof (induction w c sized r sh rule: retry_loop.induct)
  case (1 w c sized retries sh)
  show ?case
  proof (cases "retries < 5")
    case False
    with "1.prems" have "\<not> ok" "sh' = sh" by (simp_all add: retry_loop.simps)
    then have "sh' = sh\<lparr>fs := fs sh', trace := trace sh @ []\<rparr> \<and>
           list_all (item_event c sized) [] \<and>
           created_paths [] = replicate (fetch_count []) (dest_path c sized) \<and>
           (ok \<longrightarrow> 0 < fetch_count [])" by simp
    then show ?thesis by blast
  next
    case lt: True
    show ?thesis
    proof (cases "http_Get w (now sh) (Url sized)")
      case None
      let ?evs = "[Ev_Get (Url sized), Ev_Sleep (2 * (retries + 1))]"
      from lt None "1.prems"
      have "retry_loop w c sized (retries + 1) (emit ?evs sh) = (ok, r', sh')"
        by (subst (asm) retry_loop.simps) simp
      from "1.IH"(1) [OF lt None this]
      obtain new where new:
        "sh' = (emit ?evs sh)\<lparr>fs := fs sh', trace := trace (emit ?evs sh) @ new\<rparr>"
        "list_all (item_event c sized) new"
        "created_paths new = replicate (fetch_count new) (dest_path c sized)"
        "ok \<longrightarrow> 0 < fetch_count new"
        by blast
      have "sh' = sh\<lparr>fs := fs sh', trace := trace sh @ (?evs @ new)\<rparr>"
        by (subst new(1)) (simp add: emit_def)
      moreover have "list_all (item_event c sized) (?evs @ new)"
        using new(2) by simp
      moreover have "created_paths (?evs @ new) =
                       replicate (fetch_count (?evs @ new)) (dest_path c sized)"
        using new(3) by simp
      moreover have "ok \<longrightarrow> 0 < fetch_count (?evs @ new)"
        using new(4) by simp
      ultimately show ?thesis by blast
    next
      case (Some res)
      let ?sh1 = "emit [Ev_Get (Url sized),
                        Log_fetching (Filename sized) (ContentLength res) retries] sh"
      let ?evs = "[Ev_Get (Url sized),
                   Log_fetching (Filename sized) (ContentLength res) retries,
                   Ev_Create (dest_path c sized)]"
      show ?thesis
      proof (cases "os_Create w (now ?sh1) (dest_path c sized)")
        case True
        with lt Some "1.prems"
        have "sh' = io_Copy w (dest_path c sized) res (emit [Ev_Create (dest_path c sized)] ?sh1)"
          by (subst (asm) retry_loop.simps) (auto simp: Let_def)
        then have "sh' = sh\<lparr>fs := fs sh', trace := trace sh @ ?evs\<rparr>"
          by (simp add: io_Copy_def emit_def)
        moreover have "list_all (item_event c sized) ?evs" by simp
        moreover have "created_paths ?evs = replicate (fetch_count ?evs) (dest_path c sized)"
          by simp
        moreover have "0 < fetch_count ?evs" by simp
        ultimately show ?thesis by blast
      next
        case False
        with lt Some "1.prems"
        have "retry_loop w c sized (retries + 1)
                (emit [Ev_Create (dest_path c sized)] ?sh1) = (ok, r', sh')"
          by (subst (asm) retry_loop.simps) (simp add: Let_def)
        from "1.IH"(2) [OF lt Some refl False this]
        obtain new where new:
          "sh' = (emit [Ev_Create (dest_path c sized)] ?sh1)
                   \<lparr>fs := fs sh',
                    trace := trace (emit [Ev_Create (dest_path c sized)] ?sh1) @ new\<rparr>"
          "list_all (item_event c sized) new"
          "created_paths new = replicate (fetch_count new) (dest_path c sized)"
          "ok \<longrightarrow> 0 < fetch_count new"
          by blast
        have "sh' = sh\<lparr>fs := fs sh', trace := trace sh @ (?evs @ new)\<rparr>"
          by (subst new(1)) (simp add: emit_def)
        moreover have "list_all (item_event c sized) (?evs @ new)"
          using new(2) by simp
        moreover have "created_paths (?evs @ new) =
                         replicate (fetch_count (?evs @ new)) (dest_path c sized)"
          using new(3) by simp
        moreover have "ok \<longrightarrow> 0 < fetch_count (?evs @ new)"
          using new(4) by simp
        ultimately show ?thesis by blast
      qed
    qed
  qed
qed

text \<open>
  C4. A worker that has taken a descriptor whose source URL fails at the
  transport level at every attempt issues exactly five downloads, sleeps
  2, 4, 6, 8 and 10 time units after them, writes the hard-error line with
  the count 5, and stays in its loop: the process is as before but for the
  descriptor taken from the queue and these events.
\<close>

theorem bounded_retry:
  assumes fail: "\<And>t. http_Get w t (Url sized) = None"
    and running: "status s = Running"
    and worker: "i < length (workers s)" "workers s ! i"
    and head: "queue (mem s) = sized # rest"
    and sel: "go_select (worker_ready (mem s)) pick = Some Recv_queue"
  shows "step w c (Worker i pick) s =
      s\<lparr>mem := (mem s)\<lparr>queue := rest,
                 trace := trace (mem s) @
                   [Ev_Get (Url sized), Ev_Sleep 2, Ev_Get (Url sized), Ev_Sleep 4,
                    Ev_Get (Url sized), Ev_Sleep 6, Ev_Get (Url sized), Ev_Sleep 8,
                    Ev_Get (Url sized), Ev_Sleep 10, Log_hard_error 5]\<rparr>\<rparr>"
proof -
  have "(workers s)[i := True] = workers s"
    using worker by (metis list_update_id)
  then show ?thesis
    using running worker head sel
    by (simp add: step_def grabPictures_iter_def fetch_picture_def retry_loop.simps fail emit_def)
qed

theorem bounded_retry_witness:
  "(\<forall>t. http_Get dead_world t (Url pic_a) = None) \<and> status one_worker = Running \<and>
   0 < length (workers one_worker) \<and> workers one_worker ! 0 \<and>
   queue (mem one_worker) = pic_a # [] \<and>
   go_select (worker_ready (mem one_worker)) 7 = Some Recv_queue \<and>
   trace (mem (step dead_world demo_config (Worker 0 7) one_worker)) =
     [Ev_Get (Url pic_a), Ev_Sleep 2, Ev_Get (Url pic_a), Ev_Sleep 4,
      Ev_Get (Url pic_a), Ev_Sleep 6, Ev_Get (Url pic_a), Ev_Sleep 8,
      Ev_Get (Url pic_a), Ev_Sleep 10, Log_hard_error 5] \<and>
   workers (step dead_world demo_config (Worker 0 7) one_worker) = [True]"
proof -
  have h: "\<And>t. http_Get dead_world t (Url pic_a) = None"
    by (simp add: demo_defs)
  have a: "status one_worker = Running" "0 < length (workers one_worker)"
    "workers one_worker ! 0" "queue (mem one_worker) = pic_a # []"
    "go_select (worker_ready (mem one_worker)) 7 = Some Recv_queue"
    by (simp_all add: one_worker_def one_queued_def go_select_def worker_ready_def)
  show ?thesis
    using bounded_retry [of dead_world pic_a one_worker 0 "[]" 7 demo_config, OF h a] h a
    by (simp add: one_worker_def one_queued_def)
qed




text \<open>
  C8 fails on the code. The download is answered with the three bytes
  \<^verbatim>\<open>jpg\<close>, the file is created, and the copy breaks off after two bytes.
  The source drops what \<^verbatim>\<open>io.Copy\<close> returns (line 209), so the worker
  leaves the retry loop by \<^verbatim>\<open>break nextPicture\<close> as after any fetch: no
  further attempt, no error line, and the file holds \<^verbatim>\<open>jp\<close>.
\<close>

theorem cut_copy_counts_as_fetched:
  "http_Get cut_world 0 (Url pic_a) =
     Some \<lparr>ContentLength = 3, RespBody = ''jpg'', CopyStops = Some 2\<rparr> \<and>
   retry_loop cut_world demo_config pic_a 0 (one_queued\<lparr>queue := []\<rparr>) =
     (True, 0,
      one_queued\<lparr>queue := [], fs := [''/tmp/a.jpg'' \<mapsto> ''jp''],
                 trace := [Ev_Get ''http://farm.example/a_o.jpg'', Log_fetching ''a.jpg'' 3 0,
                           Ev_Create ''/tmp/a.jpg'']\<rparr>) \<and>
   trace (mem (step cut_world demo_config (Worker 0 0) one_worker)) =
     [Ev_Get ''http://farm.example/a_o.jpg'', Log_fetching ''a.jpg'' 3 0, Ev_Create ''/tmp/a.jpg''] \<and>
   fs (mem (step cut_world demo_config (Worker 0 0) one_worker)) ''/tmp/a.jpg'' = Some ''jp''"
  by (simp add: exec_defs demo_defs)



section \<open>Runs of the process\<close>

lemma run_not_running: "status s \<noteq> Running \<Longrightarrow> run w c as s = s"
  by (induction as) (simp_all add: step_def)

text \<open>
  The search of the concrete inputs, run to its end: the page is fetched, the
  two descriptors of the wanted size are pushed, each worker downloads one,
  the main goroutine finds the queue empty and closes \<^verbatim>\<open>stop\<close>, the
  workers return and the process exits with code 0, two files written.
\<close>

lemma full_run:
  "status (run demo_world demo_config
      [Main 0, Main 0, Main 0, Main 0, Main 0, Main 0, Worker 0 0, Worker 1 0,
       Main 0, Main 0, Worker 0 0, Worker 1 0, Main 0]
      (main_start demo_world demo_config Map.empty)) = Exited 0 \<and>
   trace (mem (run demo_world demo_config
      [Main 0, Main 0, Main 0, Main 0, Main 0, Main 0, Worker 0 0, Worker 1 0,
       Main 0, Main 0, Worker 0 0, Worker 1 0, Main 0]
      (main_start demo_world demo_config Map.empty))) =
     [Log_grabbing ''cats'', Log_starting_goroutines, Log_start_uris,
      Ev_Do ''http://www.flickr.com/search?data=1&mt=photos&cm=&m=&l=&w=&hd=&d=&append=0&s=&q=cats&page=1'',
      Ev_Offer 1 pic_a, Log_pushed ''a.jpg'', Ev_Offer 1 pic_b, Log_pushed ''b.jpg'',
      Ev_Get ''http://farm.example/a_o.jpg'', Log_fetching ''a.jpg'' 3 0, Ev_Create ''/tmp/a.jpg'',
      Ev_Get ''http://farm.example/b_o.jpg'', Log_fetching ''b.jpg'' 3 0, Ev_Create ''/tmp/b.jpg'',
      Log_waiting, Log_stopping_grabber, Log_stopping_grabber, Log_finished] \<and>
   fs (mem (run demo_world demo_config
      [Main 0, Main 0, Main 0, Main 0, Main 0, Main 0, Worker 0 0, Worker 1 0,
       Main 0, Main 0, Worker 0 0, Worker 1 0, Main 0]
      (main_start demo_world demo_config Map.empty))) =
     [''/tmp/a.jpg'' \<mapsto> ''jpg'', ''/tmp/b.jpg'' \<mapsto> ''jpg'']"
  by (simp add: exec_defs demo_defs numeral_2_eq_2)

lemma crawler_events_simps [simp]:
  "crawler_events [] = []"
  "crawler_events (ev # tr) =
     (if is_crawler_event ev then ev # crawler_events tr else crawler_events tr)"
  "crawler_events (tr @ tr') = crawler_events tr @ crawler_events tr'"
  by (simp_all add: crawler_events_def)

lemma offers_of_simps [simp]:
  "offers_of page [] = []"
  "offers_of page (ev # tr) =
     (case offered page ev of None \<Rightarrow> offers_of page tr | Some d \<Rightarrow> d # offers_of page tr)"
  "offers_of page (tr @ tr') = offers_of page tr @ offers_of page tr'"
  by (simp_all add: offers_of_def List.map_filter_def split: option.splits)

lemma wanted_simps [simp]:
  "wanted c [] = []"
  "wanted c (photo # photos) =
     (case Sizes photo (sizeWanted c) of
        None \<Rightarrow> wanted c photos
      | Some sized \<Rightarrow> sized # wanted c photos)"
  by (simp_all add: wanted_def List.map_filter_def split: option.splits)

lemma item_event_not_crawler: "item_event c sized ev \<Longrightarrow> \<not> is_crawler_event ev"
  by (cases ev) simp_all

lemma item_events_not_crawler: "list_all (item_event c sized) new \<Longrightarrow> crawler_events new = []"
  by (induction new) (auto dest: item_event_not_crawler)

lemma not_crawler_not_offered: "\<not> is_crawler_event ev \<Longrightarrow> offered page ev = None"
  by (cases ev) simp_all

lemma no_crawler_events_no_offers:
  "crawler_events new = [] \<Longrightarrow> offers_of page new = [] \<and> Log_stopping_spider \<notin> set new"
proof (induction new)
  case Nil
  then show ?case by simp
next
  case (Cons ev new)
  then have "\<not> is_crawler_event ev" "crawler_events new = []"
    by (auto split: if_splits)
  with Cons.IH show ?case
    by (auto simp: not_crawler_not_offered)
qed

text \<open>A turn of a worker records no event of the crawler.\<close>

lemma grabPictures_iter_events:
  "\<exists>new. trace (snd (grabPictures_iter w c pick sh)) = trace sh @ new \<and> crawler_events new = []"
proof (cases "go_select (worker_ready sh) pick")
  case None
  then show ?thesis by (simp add: grabPictures_iter_def)
next
  case (Some which)
  show ?thesis
  proof (cases which)
    case Recv_stop
    with Some show ?thesis by (simp add: grabPictures_iter_def)
  next
    case Recv_queue
    show ?thesis
    proof (cases "queue sh")
      case Nil
      with Some Recv_queue show ?thesis by (simp add: grabPictures_iter_def)
    next
      case (Cons sized rest)
      obtain ok r' sh' where res: "retry_loop w c sized 0 (sh\<lparr>queue := rest\<rparr>) = (ok, r', sh')"
        by (cases "retry_loop w c sized 0 (sh\<lparr>queue := rest\<rparr>)") auto
      from retry_loop_events [OF res]
      obtain new where new: "sh' = (sh\<lparr>queue := rest\<rparr>)\<lparr>fs := fs sh', trace := trace (sh\<lparr>queue := rest\<rparr>) @ new\<rparr>"
        "list_all (item_event c sized) new"
        by blast
      from new(1) have tr: "trace sh' = trace sh @ new"
        by (metis shared.select_convs(7) shared.surjective shared.update_convs(5,6,7))
      have none: "crawler_events new = []"
        using new(2) by (rule item_events_not_crawler)
      show ?thesis
      proof (cases ok)
        case True
        with Some Recv_queue Cons res tr none show ?thesis
          by (simp add: grabPictures_iter_def fetch_picture_def)
      next
        case False
        with Some Recv_queue Cons res tr
        have "trace (snd (grabPictures_iter w c pick sh)) = trace sh @ (new @ [Log_hard_error r'])"
          by (simp add: grabPictures_iter_def fetch_picture_def)
        moreover have "crawler_events (new @ [Log_hard_error r']) = []"
          using none by simp
        ultimately show ?thesis by blast
      qed
    qed
  qed
qed

text \<open>
  A turn of any goroutine but the main one, and the arrival of an interrupt,
  leave the main goroutine where it stands and record no event of the crawler.
\<close>

lemma other_step:
  assumes "\<And>pick. a \<noteq> Main pick"
  shows "main_pc (step w c a s) = main_pc s \<and>
         (\<exists>new. trace (mem (step w c a s)) = trace (mem s) @ new \<and> crawler_events new = [])"
proof (cases a)
  case (Main pick)
  with assms show ?thesis by blast
next
  case (Worker i pick)
  from grabPictures_iter_events [of w c pick "mem s"]
  show ?thesis
    by (auto simp: step_def Worker split: prod.splits)
next
  case Sig
  have "\<exists>new. trace (mem (step w c Sig s)) = trace (mem s) @ new \<and> crawler_events new = []"
  proof (cases "status s = Running \<and> sig_running s \<and> 0 < signals (mem s)")
    case True
    then have "trace (mem (step w c Sig s)) = trace (mem s) @ [Log_caught_signal]"
      by (simp add: step_def signal_goroutine_iter_def close_stop_def emit_def Let_def)
    moreover have "crawler_events [Log_caught_signal] = []" by simp
    ultimately show ?thesis by blast
  next
    case False
    then have "trace (mem (step w c Sig s)) = trace (mem s) @ []"
      by (auto simp: step_def signal_goroutine_iter_def)
    then show ?thesis by force
  qed
  moreover have "main_pc (step w c Sig s) = main_pc s"
    by (simp add: step_def signal_goroutine_iter_def close_stop_def Let_def)
  ultimately show ?thesis using Sig by simp
next
  case OS_interrupt
  have "trace (mem (step w c OS_interrupt s)) = trace (mem s) @ []"
    "main_pc (step w c OS_interrupt s) = main_pc s"
    by (simp_all add: step_def)
  then show ?thesis using OS_interrupt by force
qed

text \<open>Once \<^verbatim>\<open>fetchFlickrData\<close> has returned, no event of the crawler is recorded any more.\<close>

lemma after_crawl_step:
  assumes "crawl_over (main_pc s)"
  shows "crawl_over (main_pc (step w c a s)) \<and>
         crawler_events (trace (mem (step w c a s))) = crawler_events (trace (mem s))"
proof (cases "\<exists>pick. a = Main pick")
  case False
  then have "\<And>pick. a \<noteq> Main pick" by blast
  from other_step [OF this, of w c s] assms show ?thesis by auto
next
  case True
  then obtain pick where a: "a = Main pick" by blast
  show ?thesis
  proof (cases "status s = Running")
    case False
    with assms show ?thesis by (simp add: step_def)
  next
    case True
    show ?thesis
    proof (cases "main_pc s")
      case (M_crawl pc)
      with assms show ?thesis by simp
    next
      case M_drain
      with True show ?thesis
        by (simp add: a step_def main_step_def emit_def)
    next
      case M_len
      with True show ?thesis
        by (cases "stop_closed (mem s)")
           (simp_all add: a step_def main_step_def close_stop_def emit_def)
    next
      case M_wait
      with True show ?thesis
        by (simp add: a step_def main_step_def emit_def)
    qed
  qed
qed

lemma after_crawl_run:
  "crawl_over (main_pc s) \<Longrightarrow>
     crawler_events (trace (mem (run w c as s))) = crawler_events (trace (mem s))"
proof (induction as arbitrary: s)
  case Nil
  then show ?case by simp
next
  case (Cons a as)
  from after_crawl_step [OF Cons.prems, of w c a]
  have "crawl_over (main_pc (step w c a s))"
    "crawler_events (trace (mem (step w c a s))) = crawler_events (trace (mem s))"
    by simp_all
  with Cons.IH [of "step w c a s"] show ?case by simp
qed

lemma past_keep:
  "trace (mem s') = trace (mem s) @ added \<Longrightarrow> offers_of page added = [] \<Longrightarrow>
   past_page page (main_pc s') \<Longrightarrow>
   past_page page (main_pc s') \<and>
   (\<exists>added. trace (mem s') = trace (mem s) @ added \<and> offers_of page added = [])"
  by blast

text \<open>
  A turn of the main goroutine that has left the photos of page \<open>page\<close>
  behind stays past them and records no offer of that page.
\<close>

lemma main_step_past:
  assumes "past_page page (main_pc s)"
  shows "past_page page (main_pc (main_step w c pick s)) \<and>
         (\<exists>added. trace (mem (main_step w c pick s)) = trace (mem s) @ added \<and>
                 offers_of page added = [])"
proof (cases "main_pc s")
  case M_drain
  show ?thesis
  proof (cases "finishing (mem s)")
    case True
    with M_drain show ?thesis
      by (intro past_keep [of _ _ "[Log_waiting]"]) (simp_all add: main_step_def)
  next
    case False
    with M_drain show ?thesis
      by (intro past_keep [of _ _ "[]"]) (simp_all add: main_step_def)
  qed
next
  case M_len
  show ?thesis
  proof (cases "queue (mem s) = []")
    case False
    with M_len show ?thesis
      by (intro past_keep [of _ _ "[]"]) (simp_all add: main_step_def)
  next
    case True
    show ?thesis
    proof (cases "stop_closed (mem s)")
      case True
      with \<open>queue (mem s) = []\<close> M_len show ?thesis
        by (intro past_keep [of _ _ "[Log_finished]"]) (simp_all add: main_step_def close_stop_def)
    next
      case False
      with \<open>queue (mem s) = []\<close> M_len show ?thesis
        by (intro past_keep [of _ _ "[Log_waiting]"]) (simp_all add: main_step_def close_stop_def)
    qed
  qed
next
  case M_wait
  show ?thesis
  proof (cases "list_all (\<lambda>running. \<not> running) (workers s)")
    case True
    with M_wait show ?thesis
      by (intro past_keep [of _ _ "[Log_finished]"]) (simp_all add: main_step_def)
  next
    case False
    with M_wait show ?thesis
      by (intro past_keep [of _ _ "[]"]) (simp_all add: main_step_def)
  qed
next
  case (M_crawl pc)
  show ?thesis
  proof (cases pc)
    case (Page_loop q)
    with M_crawl assms have q: "page < q" by simp
    obtain r sh' where res: "fetchFlickrData_step w c pick (Page_loop q) (mem s) = (r, sh')"
      by (cases "fetchFlickrData_step w c pick (Page_loop q) (mem s)") auto
    then have "\<exists>added. trace sh' = trace (mem s) @ added \<and> offers_of page added = [] \<and>
                 (case r of Continue pc' \<Rightarrow> \<exists>ps. pc' = Photo_loop q ps | Returned \<Rightarrow> True | Fatal \<Rightarrow> True)"
      by (auto simp: page_ready_def go_select_def fetch_page_def Let_def
               split: if_splits option.splits)
    then obtain added where added: "trace sh' = trace (mem s) @ added" "offers_of page added = []"
      "case r of Continue pc' \<Rightarrow> \<exists>ps. pc' = Photo_loop q ps | Returned \<Rightarrow> True | Fatal \<Rightarrow> True"
      by blast
    show ?thesis
    proof (cases r)
      case (Continue pc')
      with added(3) obtain ps where "pc' = Photo_loop q ps" by auto
      with Continue M_crawl Page_loop res added q show ?thesis
        by (simp add: main_step_def)
    next
      case Returned
      with M_crawl Page_loop res added show ?thesis
        by (simp add: main_step_def)
    next
      case Fatal
      with M_crawl Page_loop res added q show ?thesis
        by (simp add: main_step_def)
    qed
  next
    case (Photo_loop q ps)
    with M_crawl assms have q: "page < q" by simp
    show ?thesis
    proof (cases ps)
      case Nil
      with M_crawl Photo_loop q show ?thesis
        by (simp add: main_step_def)
    next
      case (Cons photo rest)
      show ?thesis
      proof (cases "Sizes photo (sizeWanted c)")
        case None
        with M_crawl Photo_loop Cons q show ?thesis
          by (simp add: main_step_def)
      next
        case (Some sized)
        obtain ret sh' where res: "offer c q sized pick (mem s) = (ret, sh')"
          by (cases "offer c q sized pick (mem s)") auto
        then have "\<exists>added. trace sh' = trace (mem s) @ added \<and> offers_of page added = []"
          using q
          by (auto simp: offer_def Let_def emit_def split: option.splits crawler_case.splits)
        with M_crawl Photo_loop Cons Some res q show ?thesis
          by (cases ret) (auto simp: main_step_def)
      qed
    qed
  qed
qed

lemma page_inv_past:
  assumes inv: "page_inv c page T W s" and was: "past_page page (main_pc s)"
    and now_past: "past_page page (main_pc s')"
    and tr: "trace (mem s') = trace (mem s) @ added" and none: "offers_of page added = []"
  shows "page_inv c page T W s'"
proof -
  from inv was obtain new where new: "trace (mem s) = T @ new"
    "offers_of page new = W \<or>
     (Log_stopping_spider \<in> set new \<and> (\<exists>rest. offers_of page new @ rest = W))"
    by (cases "main_pc s") (auto simp: page_inv_def)
  have "trace (mem s') = T @ (new @ added)"
    using tr new(1) by simp
  moreover have "offers_of page (new @ added) = W \<or>
     (Log_stopping_spider \<in> set (new @ added) \<and> (\<exists>rest. offers_of page (new @ added) @ rest = W))"
    using new(2) none by auto
  ultimately show ?thesis
    using now_past unfolding page_inv_def by blast
qed

lemma page_inv_other:
  assumes inv: "page_inv c page T W s" and pc: "main_pc s' = main_pc s"
    and tr: "trace (mem s') = trace (mem s) @ added" and none: "offers_of page added = []"
  shows "page_inv c page T W s'"
proof -
  from inv obtain new where new: "trace (mem s) = T @ new"
    "(\<exists>ps. main_pc s = M_crawl (Photo_loop page ps) \<and> offers_of page new @ wanted c ps = W) \<or>
     (past_page page (main_pc s) \<and>
        (offers_of page new = W \<or>
         (Log_stopping_spider \<in> set new \<and> (\<exists>rest. offers_of page new @ rest = W))))"
    unfolding page_inv_def by blast
  have "trace (mem s') = T @ (new @ added)"
    using tr new(1) by simp
  moreover have
    "(\<exists>ps. main_pc s' = M_crawl (Photo_loop page ps) \<and>
           offers_of page (new @ added) @ wanted c ps = W) \<or>
     (past_page page (main_pc s') \<and>
        (offers_of page (new @ added) = W \<or>
         (Log_stopping_spider \<in> set (new @ added) \<and>
          (\<exists>rest. offers_of page (new @ added) @ rest = W))))"
    using new(2) none pc by auto
  ultimately show ?thesis
    unfolding page_inv_def by blast
qed

text \<open>A turn of the main goroutine among the photos of the page.\<close>

lemma main_step_photos:
  assumes inv: "page_inv c page T W s" and pc: "main_pc s = M_crawl (Photo_loop page ps)"
  shows "page_inv c page T W (main_step w c pick s)"
proof -
  from inv pc obtain new where new: "trace (mem s) = T @ new"
    "offers_of page new @ wanted c ps = W"
    by (auto simp: page_inv_def)
  show ?thesis
  proof (cases ps)
    case Nil
    with pc have "main_step w c pick s = s\<lparr>main_pc := M_crawl (Page_loop (page + 1))\<rparr>"
      by (simp add: main_step_def)
    with new Nil show ?thesis
      by (auto simp: page_inv_def)
  next
    case (Cons photo rest)
    show ?thesis
    proof (cases "Sizes photo (sizeWanted c)")
      case None
      with pc Cons have "main_step w c pick s = s\<lparr>main_pc := M_crawl (Photo_loop page rest)\<rparr>"
        by (simp add: main_step_def)
      with new Cons None show ?thesis
        by (auto simp: page_inv_def)
    next
      case (Some sized)
      from new(2) Cons Some have W: "offers_of page new @ sized # wanted c rest = W"
        by simp
      obtain ret sh' where res: "offer c page sized pick (mem s) = (ret, sh')"
        by (cases "offer c page sized pick (mem s)") auto
      show ?thesis
      proof (cases ret)
        case True
        with res have "trace sh' = trace (mem s) @ [Ev_Offer page sized, Log_stopping_spider]"
          by (auto simp: offer_def Let_def emit_def split: option.splits crawler_case.splits)
        then have tr: "trace sh' = T @ (new @ [Ev_Offer page sized, Log_stopping_spider])"
          using new(1) by simp
        have "Log_stopping_spider \<in> set (new @ [Ev_Offer page sized, Log_stopping_spider])"
          by simp
        moreover have "offers_of page (new @ [Ev_Offer page sized, Log_stopping_spider]) @
                         wanted c rest = W"
          using W by simp
        moreover have "main_step w c pick s = s\<lparr>main_pc := M_drain, mem := sh'\<rparr>"
          using pc Cons Some res True by (simp add: main_step_def)
        ultimately show ?thesis
          using tr unfolding page_inv_def by (simp del: offers_of_simps set_append) blast
      next
        case False
        with res have "\<exists>added. trace sh' = trace (mem s) @ added \<and> offers_of page added = [sized]"
          by (auto simp: offer_def Let_def emit_def split: option.splits crawler_case.splits)
        then obtain added where added: "trace sh' = trace (mem s) @ added"
          "offers_of page added = [sized]" by blast
        have tr: "trace sh' = T @ (new @ added)"
          using added(1) new(1) by simp
        have "offers_of page (new @ added) @ wanted c rest = W"
          using W added(2) by simp
        moreover have "main_step w c pick s = s\<lparr>main_pc := M_crawl (Photo_loop page rest), mem := sh'\<rparr>"
          using pc Cons Some res False by (simp add: main_step_def)
        ultimately show ?thesis
          using tr unfolding page_inv_def by (simp del: offers_of_simps)
      qed
    qed
  qed
qed

lemma page_inv_step:
  assumes inv: "page_inv c page T W s"
  shows "page_inv c page T W (step w c a s)"
proof (cases "status s = Running")
  case False
  with inv show ?thesis by (simp add: step_def)
next
  case True
  show ?thesis
  proof (cases "\<exists>pick. a = Main pick")
    case False
    then have "\<And>pick. a \<noteq> Main pick" by blast
    from other_step [OF this, of w c s]
    obtain added where "main_pc (step w c a s) = main_pc s"
      "trace (mem (step w c a s)) = trace (mem s) @ added" "crawler_events added = []"
      by blast
    with inv show ?thesis
      by (auto intro: page_inv_other dest: no_crawler_events_no_offers)
  next
    case main: True
    then obtain pick where a: "a = Main pick" by blast
    have st: "step w c a s = main_step w c pick s"
      using True a by (simp add: step_def)
    show ?thesis
    proof (cases "past_page page (main_pc s)")
      case True
      from main_step_past [OF True, of w c pick]
      obtain added where "past_page page (main_pc (main_step w c pick s))"
        "trace (mem (main_step w c pick s)) = trace (mem s) @ added" "offers_of page added = []"
        by blast
      with inv True show ?thesis
        unfolding st by (auto intro: page_inv_past)
    next
      case False
      with inv obtain ps where "main_pc s = M_crawl (Photo_loop page ps)"
        by (auto simp: page_inv_def)
      from main_step_photos [OF inv this] show ?thesis
        unfolding st .
    qed
  qed
qed

lemma page_inv_run: "page_inv c page T W s \<Longrightarrow> page_inv c page T W (run w c as s)"
  by (induction as arbitrary: s) (simp_all add: page_inv_step)

text \<open>
  From the photos of a decoded page on, whatever the other goroutines do: the
  descriptors the crawler offers from this page are, in order, those of the
  photos that have the wanted size, up to some point; up to the end when the
  crawler has left the page without logging that it stops.
\<close>

lemma page_offers:
  assumes "main_pc s = M_crawl (Photo_loop page photos)"
  shows "\<exists>new rest. trace (mem (run w c as s)) = trace (mem s) @ new \<and>
           offers_of page new @ rest = wanted c photos \<and>
           (past_page page (main_pc (run w c as s)) \<and> Log_stopping_spider \<notin> set new
              \<longrightarrow> rest = [])"
proof -
  have "page_inv c page (trace (mem s)) (wanted c photos) s"
    using assms unfolding page_inv_def by (intro exI [of _ "[]"]) simp
  then have "page_inv c page (trace (mem s)) (wanted c photos) (run w c as s)"
    by (rule page_inv_run)
  then obtain new where new: "trace (mem (run w c as s)) = trace (mem s) @ new"
    "(\<exists>ps. main_pc (run w c as s) = M_crawl (Photo_loop page ps) \<and>
           offers_of page new @ wanted c ps = wanted c photos) \<or>
     (past_page page (main_pc (run w c as s)) \<and>
        (offers_of page new = wanted c photos \<or>
         (Log_stopping_spider \<in> set new \<and> (\<exists>rest. offers_of page new @ rest = wanted c photos))))"
    unfolding page_inv_def by blast
  from new(2) show ?thesis
  proof
    assume "\<exists>ps. main_pc (run w c as s) = M_crawl (Photo_loop page ps) \<and>
           offers_of page new @ wanted c ps = wanted c photos"
    then obtain ps where "main_pc (run w c as s) = M_crawl (Photo_loop page ps)"
      "offers_of page new @ wanted c ps = wanted c photos" by blast
    with new(1) show ?thesis by auto
  next
    assume past: "past_page page (main_pc (run w c as s)) \<and>
        (offers_of page new = wanted c photos \<or>
         (Log_stopping_spider \<in> set new \<and> (\<exists>rest. offers_of page new @ rest = wanted c photos)))"
    show ?thesis
    proof (cases "offers_of page new = wanted c photos")
      case True
      with new(1) show ?thesis by auto
    next
      case False
      with past obtain rest where "Log_stopping_spider \<in> set new"
        "offers_of page new @ rest = wanted c photos" by blast
      with new(1) show ?thesis by auto
    qed
  qed
qed

section \<open>The crawler and the shutdown\<close>

text \<open>
  C1 fails on the code. The search answers an HTML page, the crawler returns,
  the main goroutine finds \<^verbatim>\<open>finishing\<close> unset and the queue empty and
  closes \<^verbatim>\<open>stop\<close> (without setting \<^verbatim>\<open>finishing\<close>); an interrupt
  arrives while it waits for the workers, and the signal goroutine closes
  \<^verbatim>\<open>stop\<close> a second time: the process panics. It panics as well when the
  signal goroutine sets \<^verbatim>\<open>finishing\<close> and closes \<^verbatim>\<open>stop\<close> between
  the main goroutine's test of \<^verbatim>\<open>finishing\<close> and its own \<^verbatim>\<open>close(stop)\<close>.
\<close>

theorem second_close_panics:
  "status (run html_world demo_config [Main 0, Main 0, Main 0, OS_interrupt, Sig]
             (main_start html_world demo_config Map.empty)) = Panicked ''close of closed channel'' \<and>
   trace (mem (run html_world demo_config [Main 0, Main 0, Main 0, OS_interrupt, Sig]
                 (main_start html_world demo_config Map.empty))) =
     [Log_grabbing ''cats'', Log_starting_goroutines, Log_start_uris,
      Ev_Do ''http://www.flickr.com/search?data=1&mt=photos&cm=&m=&l=&w=&hd=&d=&append=0&s=&q=cats&page=1'',
      Log_not_json, Log_waiting, Log_caught_signal] \<and>
   status (run html_world demo_config [Main 0, Main 0, OS_interrupt, Sig, Main 0]
             (main_start html_world demo_config Map.empty)) = Panicked ''close of closed channel'' \<and>
   trace (mem (run html_world demo_config [Main 0, Main 0, OS_interrupt, Sig, Main 0]
                 (main_start html_world demo_config Map.empty))) =
     [Log_grabbing ''cats'', Log_starting_goroutines, Log_start_uris,
      Ev_Do ''http://www.flickr.com/search?data=1&mt=photos&cm=&m=&l=&w=&hd=&d=&append=0&s=&q=cats&page=1'',
      Log_not_json, Log_caught_signal, Log_finished]"
  by (simp add: exec_defs demo_defs numeral_2_eq_2)

text \<open>
  C2 fails on the code. With \<^verbatim>\<open>stop\<close> closed by the signal goroutine and a
  descriptor in the queue, both cases of the worker's \<^verbatim>\<open>select\<close> can
  proceed, and the worker that is given the first takes the descriptor and
  downloads it. In the same way the crawler, at an offer with \<^verbatim>\<open>stop\<close>
  closed and room in the queue, may be given the send and enqueue.
\<close>

theorem work_taken_after_cancellation:
  "stop_closed (mem (run demo_world demo_config [Main 0, Main 0, OS_interrupt, Sig]
                       (main_start demo_world demo_config Map.empty))) \<and>
   queue (mem (run demo_world demo_config [Main 0, Main 0, OS_interrupt, Sig]
                 (main_start demo_world demo_config Map.empty))) = [pic_a] \<and>
   queue (mem (run demo_world demo_config [Main 0, Main 0, OS_interrupt, Sig, Worker 0 0]
                 (main_start demo_world demo_config Map.empty))) = [] \<and>
   trace (mem (run demo_world demo_config [Main 0, Main 0, OS_interrupt, Sig, Worker 0 0]
                 (main_start demo_world demo_config Map.empty))) =
     [Log_grabbing ''cats'', Log_starting_goroutines, Log_start_uris,
      Ev_Do ''http://www.flickr.com/search?data=1&mt=photos&cm=&m=&l=&w=&hd=&d=&append=0&s=&q=cats&page=1'',
      Ev_Offer 1 pic_a, Log_pushed ''a.jpg'', Log_caught_signal,
      Ev_Get ''http://farm.example/a_o.jpg'', Log_fetching ''a.jpg'' 3 0,
      Ev_Create ''/tmp/a.jpg''] \<and>
   stop_closed (mem (run demo_world demo_config [Main 0, OS_interrupt, Sig]
                       (main_start demo_world demo_config Map.empty))) \<and>
   queue (mem (run demo_world demo_config [Main 0, OS_interrupt, Sig]
                 (main_start demo_world demo_config Map.empty))) = [] \<and>
   queue (mem (run demo_world demo_config [Main 0, OS_interrupt, Sig, Main 1]
                 (main_start demo_world demo_config Map.empty))) = [pic_a]"
  by (simp add: exec_defs demo_defs numeral_2_eq_2)

text \<open>
  C5, as stated, fails: with the search endpoint out of reach the process
  ends by \<^verbatim>\<open>log.Fatalf\<close>, that is with exit code 1, not 0.
\<close>

theorem fatal_exit_code:
  "status (run unreachable_world demo_config [Main 0] (main_start unreachable_world demo_config Map.empty)) =
     Exited 1"
  by (simp add: exec_defs demo_defs numeral_2_eq_2)

text \<open>
  C5, amended. When, at a page the crawler starts, the request cannot be
  built, the endpoint cannot be reached or the body cannot be read, the
  process ends within that turn with exit code 1: the fatal line is the last
  event, the workers are not waited for, and nothing runs afterwards.
\<close>

theorem fatal_crawler_error:
  assumes "status s = Running" and "main_pc s = M_crawl (Page_loop page)"
    and "page \<le> maxPages c" and "\<not> stop_closed (mem s)"
    and "\<not> NewRequest w (search_url w c page) \<or>
         client_Do w (now (mem s)) (search_url w c page) = None \<or>
         (\<exists>res. client_Do w (now (mem s)) (search_url w c page) = Some res \<and>
                ContentType res = ''application/json'' \<and> Body res = None)"
  shows "\<exists>evs. step w c (Main pick) s = s\<lparr>status := Exited 1, mem := emit evs (mem s)\<rparr> \<and>
           (evs = [Fatal_creating_request] \<or>
            evs = [Ev_Do (search_url w c page), Fatal_getting_response] \<or>
            evs = [Ev_Do (search_url w c page), Fatal_reading_body]) \<and>
           run w c as (step w c (Main pick) s) = s\<lparr>status := Exited 1, mem := emit evs (mem s)\<rparr>"
proof -
  have "\<exists>evs. step w c (Main pick) s = s\<lparr>status := Exited 1, mem := emit evs (mem s)\<rparr> \<and>
           (evs = [Fatal_creating_request] \<or>
            evs = [Ev_Do (search_url w c page), Fatal_getting_response] \<or>
            evs = [Ev_Do (search_url w c page), Fatal_reading_body])"
    using assms
    by (auto simp: step_def main_step_def page_ready_def go_select_def fetch_page_def Let_def)
  then obtain evs where evs:
    "step w c (Main pick) s = s\<lparr>status := Exited 1, mem := emit evs (mem s)\<rparr>"
    "evs = [Fatal_creating_request] \<or>
     evs = [Ev_Do (search_url w c page), Fatal_getting_response] \<or>
     evs = [Ev_Do (search_url w c page), Fatal_reading_body]"
    by blast
  have "run w c as (step w c (Main pick) s) = step w c (Main pick) s"
    by (rule run_not_running) (simp add: evs(1))
  with evs show ?thesis by auto
qed

theorem fatal_crawler_error_witness:
  "status (run unreachable_world demo_config [Worker 0 0, Main 0, Sig]
             (step unreachable_world demo_config (Main 0) (main_start unreachable_world demo_config Map.empty))) =
     Exited 1 \<and>
   workers (run unreachable_world demo_config [Worker 0 0, Main 0, Sig]
              (step unreachable_world demo_config (Main 0) (main_start unreachable_world demo_config Map.empty))) =
     [True, True] \<and>
   trace (mem (run unreachable_world demo_config [Worker 0 0, Main 0, Sig]
                 (step unreachable_world demo_config (Main 0)
                    (main_start unreachable_world demo_config Map.empty)))) =
     [Log_grabbing ''cats'', Log_starting_goroutines, Log_start_uris,
      Ev_Do ''http://www.flickr.com/search?data=1&mt=photos&cm=&m=&l=&w=&hd=&d=&append=0&s=&q=cats&page=1'',
      Fatal_getting_response]"
proof -
  let ?s = "main_start unreachable_world demo_config Map.empty"
  have a: "status ?s = Running" "main_pc ?s = M_crawl (Page_loop 1)"
    "1 \<le> maxPages demo_config" "\<not> stop_closed (mem ?s)"
    by (simp_all add: exec_defs demo_defs)
  have b: "\<not> NewRequest unreachable_world (search_url unreachable_world demo_config 1) \<or>
         client_Do unreachable_world (now (mem ?s)) (search_url unreachable_world demo_config 1) = None \<or>
         (\<exists>res. client_Do unreachable_world (now (mem ?s))
                  (search_url unreachable_world demo_config 1) = Some res \<and>
                ContentType res = ''application/json'' \<and> Body res = None)"
    by (simp add: demo_defs)
  from fatal_crawler_error [OF a b, of 0 "[Worker 0 0, Main 0, Sig]"]
  obtain evs where evs:
    "step unreachable_world demo_config (Main 0) ?s = ?s\<lparr>status := Exited 1, mem := emit evs (mem ?s)\<rparr>"
    "run unreachable_world demo_config [Worker 0 0, Main 0, Sig]
       (step unreachable_world demo_config (Main 0) ?s) =
     ?s\<lparr>status := Exited 1, mem := emit evs (mem ?s)\<rparr>"
    by blast
  have "trace (mem (step unreachable_world demo_config (Main 0) ?s)) =
     [Log_grabbing ''cats'', Log_starting_goroutines, Log_start_uris,
      Ev_Do ''http://www.flickr.com/search?data=1&mt=photos&cm=&m=&l=&w=&hd=&d=&append=0&s=&q=cats&page=1'',
      Fatal_getting_response]"
    "workers (step unreachable_world demo_config (Main 0) ?s) = [True, True]"
    by (simp_all add: exec_defs demo_defs numeral_2_eq_2)
  with evs show ?thesis by simp
qed

text \<open>
  C6. When the response to the page the crawler fetches does not declare
  \<^verbatim>\<open>application/json\<close>, or its body, read in full, does not decode, the
  crawler logs the fact and returns: the process goes on running towards the
  drain, the queue is as it was, and in no continuation does the crawler
  record anything further, be it a page fetch, an offer or a push.
\<close>

theorem end_of_results:
  assumes "status s = Running" and "main_pc s = M_crawl (Page_loop page)"
    and "page \<le> maxPages c" and "\<not> stop_closed (mem s)"
    and "NewRequest w (search_url w c page)"
    and "client_Do w (now (mem s)) (search_url w c page) = Some res"
    and "ContentType res \<noteq> ''application/json'' \<or>
         (\<exists>body. Body res = Some body \<and> json_Unmarshal w body = None)"
  shows "step w c (Main pick) s =
           s\<lparr>main_pc := M_drain,
             mem := emit (Ev_Do (search_url w c page) #
                          (if ContentType res \<noteq> ''application/json'' then [Log_not_json]
                           else [Log_cant_parse, Log_parse_error])) (mem s)\<rparr> \<and>
         crawler_events (trace (mem (run w c as (step w c (Main pick) s)))) =
           crawler_events (trace (mem s)) @ Ev_Do (search_url w c page) #
             (if ContentType res \<noteq> ''application/json'' then [Log_not_json]
              else [Log_cant_parse, Log_parse_error])"
proof -
  let ?logs = "if ContentType res \<noteq> ''application/json'' then [Log_not_json]
               else [Log_cant_parse, Log_parse_error]"
  have st: "step w c (Main pick) s =
           s\<lparr>main_pc := M_drain, mem := emit (Ev_Do (search_url w c page) # ?logs) (mem s)\<rparr>"
    using assms
    by (auto simp: step_def main_step_def page_ready_def go_select_def fetch_page_def Let_def)
  then have "crawl_over (main_pc (step w c (Main pick) s))"
    by simp
  from after_crawl_run [OF this, of w c as]
  have "crawler_events (trace (mem (run w c as (step w c (Main pick) s)))) =
        crawler_events (trace (mem (step w c (Main pick) s)))" .
  also have "\<dots> = crawler_events (trace (mem s)) @ Ev_Do (search_url w c page) # ?logs"
    unfolding st by simp
  finally show ?thesis using st by simp
qed

theorem end_of_results_witness:
  "crawler_events (trace (mem (run html_world three_pages [Main 0, Worker 0 0, Main 0, Main 0]
      (step html_world three_pages (Main 0) (main_start html_world three_pages Map.empty))))) =
     [Ev_Do ''http://www.flickr.com/search?data=1&mt=photos&cm=&m=&l=&w=&hd=&d=&append=0&s=&q=cats&page=1'',
      Log_not_json] \<and>
   crawler_events (trace (mem (run garbled_world three_pages [Main 0, Worker 0 0, Main 0, Main 0]
      (step garbled_world three_pages (Main 0) (main_start garbled_world three_pages Map.empty))))) =
     [Ev_Do ''http://www.flickr.com/search?data=1&mt=photos&cm=&m=&l=&w=&hd=&d=&append=0&s=&q=cats&page=1'',
      Log_cant_parse, Log_parse_error] \<and>
   status (step html_world three_pages (Main 0) (main_start html_world three_pages Map.empty)) = Running \<and>
   queue (mem (step html_world three_pages (Main 0) (main_start html_world three_pages Map.empty))) = []"
proof -
  let ?s = "main_start html_world three_pages Map.empty"
  let ?g = "main_start garbled_world three_pages Map.empty"
  let ?html = "\<lparr>ContentType = ''text/html'', Body = Some ''<>''\<rparr>"
  let ?json = "\<lparr>ContentType = ''application/json'', Body = Some ''{}''\<rparr>"
  have a: "status ?s = Running" "main_pc ?s = M_crawl (Page_loop 1)"
    "1 \<le> maxPages three_pages" "\<not> stop_closed (mem ?s)"
    by (simp_all add: exec_defs demo_defs)
  have b: "status ?g = Running" "main_pc ?g = M_crawl (Page_loop 1)"
    "1 \<le> maxPages three_pages" "\<not> stop_closed (mem ?g)"
    by (simp_all add: exec_defs demo_defs)
  have h: "NewRequest html_world (search_url html_world three_pages 1)"
    "client_Do html_world (now (mem ?s)) (search_url html_world three_pages 1) = Some ?html"
    "ContentType ?html \<noteq> ''application/json'' \<or>
       (\<exists>body. Body ?html = Some body \<and> json_Unmarshal html_world body = None)"
    by (simp_all add: demo_defs)
  have g: "NewRequest garbled_world (search_url garbled_world three_pages 1)"
    "client_Do garbled_world (now (mem ?g)) (search_url garbled_world three_pages 1) = Some ?json"
    "ContentType ?json \<noteq> ''application/json'' \<or>
       (\<exists>body. Body ?json = Some body \<and> json_Unmarshal garbled_world body = None)"
    by (simp_all add: demo_defs)
  have u: "search_url html_world three_pages 1 =
      ''http://www.flickr.com/search?data=1&mt=photos&cm=&m=&l=&w=&hd=&d=&append=0&s=&q=cats&page=1''"
    "search_url garbled_world three_pages 1 =
      ''http://www.flickr.com/search?data=1&mt=photos&cm=&m=&l=&w=&hd=&d=&append=0&s=&q=cats&page=1''"
    by (simp_all add: exec_defs demo_defs)
  have t: "crawler_events (trace (mem ?s)) = []" "crawler_events (trace (mem ?g)) = []"
    by (simp_all add: exec_defs demo_defs)
  have 1: "crawler_events (trace (mem (run html_world three_pages
          [Main 0, Worker 0 0, Main 0, Main 0] (step html_world three_pages (Main 0) ?s)))) =
     [Ev_Do ''http://www.flickr.com/search?data=1&mt=photos&cm=&m=&l=&w=&hd=&d=&append=0&s=&q=cats&page=1'',
      Log_not_json]"
    using end_of_results [OF a h, of 0 "[Main 0, Worker 0 0, Main 0, Main 0]", THEN conjunct2]
    unfolding u t by (simp del: run.simps)
  have 2: "crawler_events (trace (mem (run garbled_world three_pages
          [Main 0, Worker 0 0, Main 0, Main 0] (step garbled_world three_pages (Main 0) ?g)))) =
     [Ev_Do ''http://www.flickr.com/search?data=1&mt=photos&cm=&m=&l=&w=&hd=&d=&append=0&s=&q=cats&page=1'',
      Log_cant_parse, Log_parse_error]"
    using end_of_results [OF b g, of 0 "[Main 0, Worker 0 0, Main 0, Main 0]", THEN conjunct2]
    unfolding u t by (simp del: run.simps)
  have 3: "status (step html_world three_pages (Main 0) ?s) = Running"
    "queue (mem (step html_world three_pages (Main 0) ?s)) = []"
    by (simp_all add: exec_defs demo_defs)
  from 1 2 3 show ?thesis by blast
qed

text \<open>
  C7. When the crawler reaches a photo that has the wanted size while
  \<^verbatim>\<open>stop\<close> is open and the queue holds as many descriptors as its
  capacity, the turn ends at once with the queue and everything else as
  before: the crawler stands at the next photo and the descriptor is kept
  nowhere. In no continuation is it offered again: the later offers of the
  page are those of the remaining photos.
\<close>

theorem full_queue_drops:
  assumes "status s = Running" and "main_pc s = M_crawl (Photo_loop page (photo # rest))"
    and "Sizes photo (sizeWanted c) = Some sized"
    and "\<not> stop_closed (mem s)" and "capacity c \<le> int (length (queue (mem s)))"
  shows "step w c (Main pick) s =
           s\<lparr>main_pc := M_crawl (Photo_loop page rest),
             mem := emit [Ev_Offer page sized] (mem s)\<rparr> \<and>
         (\<exists>new later.
            trace (mem (run w c as (step w c (Main pick) s))) =
              trace (mem s) @ Ev_Offer page sized # new \<and>
            offers_of page new @ later = wanted c rest)"
proof -
  have st: "step w c (Main pick) s =
           s\<lparr>main_pc := M_crawl (Photo_loop page rest),
             mem := emit [Ev_Offer page sized] (mem s)\<rparr>"
    using assms
    by (simp add: step_def main_step_def offer_def offer_ready_def go_select_def Let_def)
  then have "main_pc (step w c (Main pick) s) = M_crawl (Photo_loop page rest)"
    by simp
  from page_offers [OF this, of w c as]
  obtain new later where
    "trace (mem (run w c as (step w c (Main pick) s))) =
       trace (mem (step w c (Main pick) s)) @ new"
    "offers_of page new @ later = wanted c rest"
    by blast
  then have "trace (mem (run w c as (step w c (Main pick) s))) =
               trace (mem s) @ Ev_Offer page sized # new \<and>
             offers_of page new @ later = wanted c rest"
    unfolding st by simp
  with st show ?thesis by blast
qed

theorem full_queue_drops_witness:
  "capacity demo_config = 200 \<and> length (queue (mem full_queue)) = 200 \<and>
   queue (mem (step demo_world demo_config (Main 5) full_queue)) = replicate 200 pic_b \<and>
   main_pc (step demo_world demo_config (Main 5) full_queue) =
     M_crawl (Photo_loop 1 (tl (Photos demo_page))) \<and>
   trace (mem (step demo_world demo_config (Main 5) full_queue)) = [Ev_Offer 1 pic_a]"
proof -
  have a: "status full_queue = Running"
    "main_pc full_queue = M_crawl (Photo_loop 1 (hd (Photos demo_page) # tl (Photos demo_page)))"
    "Sizes (hd (Photos demo_page)) (sizeWanted demo_config) = Some pic_a"
    "\<not> stop_closed (mem full_queue)"
    "capacity demo_config \<le> int (length (queue (mem full_queue)))"
    by (simp_all add: demo_defs capacity_def int64_def)
  from full_queue_drops [OF a, of demo_world 5 "[]"]
  have "step demo_world demo_config (Main 5) full_queue =
          full_queue\<lparr>main_pc := M_crawl (Photo_loop 1 (tl (Photos demo_page))),
                     mem := emit [Ev_Offer 1 pic_a] (mem full_queue)\<rparr>"
    by blast
  then show ?thesis
    by (simp add: demo_defs capacity_def int64_def emit_def)
qed

text \<open>
  C9, as stated, fails: the page is decoded, an interrupt closes \<^verbatim>\<open>stop\<close>,
  and at the first photo the crawler is given the stop case and returns. The
  third photo has the wanted size, and its descriptor is never offered.
\<close>

theorem cancelled_page_skips_matches:
  "main_pc (run demo_world demo_config [Main 0, OS_interrupt, Sig, Main 0]
              (main_start demo_world demo_config Map.empty)) = M_drain \<and>
   Sizes (Photos demo_page ! 2) (sizeWanted demo_config) = Some pic_b \<and>
   offers_of 1 (trace (mem (run demo_world demo_config [Main 0, OS_interrupt, Sig, Main 0]
                              (main_start demo_world demo_config Map.empty)))) = [pic_a]"
  by (simp add: exec_defs demo_defs numeral_2_eq_2)

text \<open>
  C9, amended. From the photos of a decoded page on, whatever the other
  goroutines do, the descriptors the crawler offers from this page are, in
  the order of the page and one for each, those of the photos whose size
  mapping has the wanted label, up to some photo: a photo without the label
  produces none, and none is offered twice. They are offered up to the last
  one when the crawler has left the page without logging that it stops.
\<close>

theorem offers_follow_wanted_sizes:
  assumes "main_pc s = M_crawl (Photo_loop page photos)"
  shows "\<exists>new later. trace (mem (run w c as s)) = trace (mem s) @ new \<and>
           offers_of page new @ later = wanted c photos \<and>
           (past_page page (main_pc (run w c as s)) \<and> Log_stopping_spider \<notin> set new
              \<longrightarrow> later = [])"
  using page_offers [OF assms] .

theorem offers_follow_wanted_sizes_witness:
  "main_pc (step demo_world demo_config (Main 0) (main_start demo_world demo_config Map.empty)) =
     M_crawl (Photo_loop 1 (Photos demo_page)) \<and>
   wanted demo_config (Photos demo_page) = [pic_a, pic_b] \<and>
   (\<exists>new. trace (mem (run demo_world demo_config [Main 0, Worker 1 0, Main 0, Main 0, Main 0]
                        (step demo_world demo_config (Main 0) (main_start demo_world demo_config Map.empty)))) =
            trace (mem (step demo_world demo_config (Main 0) (main_start demo_world demo_config Map.empty))) @ new \<and>
          offers_of 1 new = [pic_a, pic_b])"
proof -
  let ?s = "step demo_world demo_config (Main 0) (main_start demo_world demo_config Map.empty)"
  let ?as = "[Main 0, Worker 1 0, Main 0, Main 0, Main 0]"
  have a: "main_pc ?s = M_crawl (Photo_loop 1 (Photos demo_page))"
    by (simp add: exec_defs demo_defs)
  have w: "wanted demo_config (Photos demo_page) = [pic_a, pic_b]"
    by (simp add: demo_defs)
  have p: "past_page 1 (main_pc (run demo_world demo_config ?as ?s))"
    by (simp add: exec_defs demo_defs numeral_2_eq_2)
  have n: "Log_stopping_spider \<notin> set (trace (mem (run demo_world demo_config ?as ?s)))"
    by (simp add: exec_defs demo_defs numeral_2_eq_2)
  from offers_follow_wanted_sizes [OF a, of demo_world demo_config ?as]
  obtain new later where new:
    "trace (mem (run demo_world demo_config ?as ?s)) = trace (mem ?s) @ new"
    "offers_of 1 new @ later = wanted demo_config (Photos demo_page)"
    "past_page 1 (main_pc (run demo_world demo_config ?as ?s)) \<and> Log_stopping_spider \<notin> set new
       \<longrightarrow> later = []"
    by blast
  from n new(1) have "Log_stopping_spider \<notin> set new" by simp
  with p new(3) have "later = []" by blast
  with new(2) w have "offers_of 1 new = [pic_a, pic_b]" by simp
  with new(1) a w show ?thesis by blast
qed

end
